theory Spec2Isabelle
  imports Complex_Main
begin

section \<open>Data model of \<open>matrix_screensaver.py\<close>\<close>

text \<open>
  A cell is the tuple \<open>(y, x)\<close> the program uses as a dictionary key: row first, column
  second. Worker identifiers are the indices \<open>range(WORKERS)\<close>. The characters of the
  corpus are modelled as bytes; the only test the program applies to a character is
  \<open>32 < ord(char) < 127\<close>, which every byte of a multi-byte character fails just as its
  code point does.
\<close>

type_synonym cell = "int \<times> int"

datatype error = IndexError | ValueError | ZeroDivisionError | TypeError | KeyError

datatype attr = Init_color | Norm_color | Poof_color | No_attr

datatype wstate = Init | Write | Erase | Exit

text \<open>
  The curses window. The terminal is an external collaborator: the model records the size
  that \<open>getmaxyx\<close> reports, the last glyph and attribute drawn in every cell, and how
  many times the window was flushed. Failures of the terminal itself are outside the model.
\<close>

record surface =
  maxyx :: "int \<times> int"
  drawn :: "cell \<Rightarrow> (char \<times> attr) option"
  flushes :: nat

definition addstr :: "cell \<Rightarrow> char \<Rightarrow> attr \<Rightarrow> surface \<Rightarrow> surface" where
  "addstr c v a s = s\<lparr>drawn := (drawn s)(c \<mapsto> (v, a))\<rparr>"

record MatrixWorker =
  w_id :: nat
  w_text :: string
  w_x :: "int option"
  w_y :: "int option"
  w_dx :: int
  w_dy :: int
  w_cells :: "cell list"
  w_state :: wstate

text \<open>The class attributes of \<open>MatrixDisplay\<close>.\<close>

record class_attrs =
  FPS_MAX :: int
  WORKERS :: nat
  DIRECTION :: "int \<times> int"
  MIN_CHAR_PER_SECOND :: int
  MAX_CHAR_PER_SECOND :: int
  MAX_LEN :: int
  WARM_UP_DURATION :: real

record MatrixDisplay =
  klass :: class_attrs
  screen :: surface
  lines :: "string list"
  workers :: "MatrixWorker list"
  refresh_interval :: real
  worker_intervals :: "real list"
  cells :: "cell \<rightharpoonup> nat \<times> char"
  recent_additions :: "cell set"
  recent_removals :: "cell set"
  next_refresh :: real
  next_worker_wake_time :: "real list"

section \<open>The random source\<close>

text \<open>
  Every call of \<open>random\<close> takes one raw natural number from the environment.
  \<open>randint a b\<close> raises \<open>ValueError\<close> on an empty range and \<open>choice\<close> raises
  \<open>IndexError\<close> on an empty sequence, as the library does.
\<close>

definition randint :: "int \<Rightarrow> int \<Rightarrow> nat \<Rightarrow> error + int" where
  "randint a b r = (if a \<le> b then Inr (a + int (r mod nat (b - a + 1))) else Inl ValueError)"

definition choice :: "'a list \<Rightarrow> nat \<Rightarrow> error + 'a" where
  "choice xs r = (if xs = [] then Inl IndexError else Inr (xs ! (r mod length xs)))"

text \<open>The raw draws one call of \<open>MatrixWorker.step\<close> can consume.\<close>

record rnd =
  r_line :: nat
  r_y :: nat
  r_x :: nat
  r_wrap :: nat

section \<open>\<open>MatrixDisplay\<close>: write, erase, refresh\<close>

definition display_write :: "char \<Rightarrow> cell \<Rightarrow> nat \<Rightarrow> MatrixDisplay \<Rightarrow> MatrixDisplay" where
  "display_write v c worker_id d =
     d\<lparr>cells := (cells d)(c \<mapsto> (worker_id, v)),
       screen := addstr c v Init_color (screen d),
       recent_additions := insert c (recent_additions d),
       recent_removals := recent_removals d - {c}\<rparr>"

definition erase :: "cell \<Rightarrow> nat \<Rightarrow> MatrixDisplay \<Rightarrow> MatrixDisplay" where
  "erase c worker_id d =
     (case cells d c of
        None \<Rightarrow> d
      | Some (owner_id, v) \<Rightarrow>
          if worker_id = owner_id
          then d\<lparr>cells := (cells d)(c := None),
                 screen := addstr c v Poof_color (screen d),
                 recent_removals := insert c (recent_removals d),
                 recent_additions := recent_additions d - {c}\<rparr>
          else d)"

text \<open>
  \<open>refresh\<close> flushes, blanks every pending removal that is still vacant, redraws every
  pending addition in the normal colour and clears both sets. Reading \<open>self.cells[cell]\<close>
  for a pending addition that has no entry raises \<open>KeyError\<close>.
\<close>

definition blank_removals :: "MatrixDisplay \<Rightarrow> surface \<Rightarrow> surface" where
  "blank_removals d s =
     s\<lparr>drawn := (\<lambda>c. if c \<in> recent_removals d \<and> cells d c = None
                       then Some (CHR '' '', No_attr) else drawn s c)\<rparr>"

definition settle_additions :: "MatrixDisplay \<Rightarrow> surface \<Rightarrow> surface" where
  "settle_additions d s =
     s\<lparr>drawn := (\<lambda>c. if c \<in> recent_additions d
                       then (case cells d c of
                               Some (owner_id, v) \<Rightarrow> Some (v, Norm_color)
                             | None \<Rightarrow> drawn s c)
                       else drawn s c)\<rparr>"

definition refresh :: "MatrixDisplay \<Rightarrow> error + MatrixDisplay" where
  "refresh d =
     (let s1 = (screen d)\<lparr>flushes := Suc (flushes (screen d))\<rparr>;
          s2 = blank_removals d s1
      in if \<exists>c \<in> recent_additions d. cells d c = None then Inl KeyError
         else Inr (d\<lparr>screen := settle_additions d s2,
                      recent_removals := {},
                      recent_additions := {}\<rparr>))"

section \<open>\<open>MatrixWorker\<close>\<close>

definition new_worker :: "nat \<Rightarrow> int \<times> int \<Rightarrow> MatrixWorker" where
  "new_worker worker_id direction_vector =
     \<lparr>w_id = worker_id, w_text = [], w_x = None, w_y = None,
      w_dx = fst direction_vector, w_dy = snd direction_vector,
      w_cells = [], w_state = Init\<rparr>"

definition increment_position :: "nat \<Rightarrow> int \<Rightarrow> int \<Rightarrow> MatrixWorker \<Rightarrow> error + MatrixWorker" where
  "increment_position r window_x_max window_y_max w =
     (case (w_x w, w_y w) of
        (Some x0, Some y0) \<Rightarrow>
          (let x1 = x0 + w_dx w; y1 = y0 + w_dy w in
           if \<not> (0 \<le> y1 \<and> y1 \<le> window_y_max) then
             (if window_y_max + 1 = 0 then Inl ZeroDivisionError
              else case randint 0 window_x_max r of
                     Inl e \<Rightarrow> Inl e
                   | Inr xr \<Rightarrow> Inr (w\<lparr>w_x := Some xr, w_y := Some (y1 mod (window_y_max + 1))\<rparr>))
           else if \<not> (0 \<le> x1 \<and> x1 \<le> window_x_max) then
             (if window_x_max + 1 = 0 then Inl ZeroDivisionError
              else case randint 0 window_y_max r of
                     Inl e \<Rightarrow> Inl e
                   | Inr yr \<Rightarrow> Inr (w\<lparr>w_x := Some (x1 mod (window_x_max + 1)), w_y := Some yr\<rparr>))
           else Inr (w\<lparr>w_x := Some x1, w_y := Some y1\<rparr>))
      | _ \<Rightarrow> Inl TypeError)"

text \<open>The filter of the list comprehension in the \<open>init\<close> block.\<close>

definition glyph :: "char \<Rightarrow> bool" where
  "glyph ch = (32 < (of_char ch :: nat) \<and> (of_char ch :: nat) < 127)"

text \<open>
  \<open>step\<close> is four \<open>if\<close> blocks in a row, each looking at the state the previous one
  left; they are modelled one by one and composed in \<open>worker_step\<close>.
\<close>

definition step_init :: "rnd \<Rightarrow> MatrixWorker \<Rightarrow> MatrixDisplay \<Rightarrow> error + MatrixWorker" where
  "step_init r w d =
     (if w_state w = Init then
        (case maxyx (screen d) of (height, width) \<Rightarrow>
           (case choice (lines d) (r_line r) of
              Inl e \<Rightarrow> Inl e
            | Inr s \<Rightarrow>
               (case randint 0 (height - 2) (r_y r) of
                  Inl e \<Rightarrow> Inl e
                | Inr yr \<Rightarrow>
                   (case randint 0 (width - 1) (r_x r) of
                      Inl e \<Rightarrow> Inl e
                    | Inr xr \<Rightarrow>
                        Inr (w\<lparr>w_text := filter glyph s, w_y := Some yr, w_x := Some xr,
                               w_cells := [], w_state := Write\<rparr>)))))
      else Inr w)"

definition step_write :: "rnd \<Rightarrow> MatrixWorker \<Rightarrow> MatrixDisplay \<Rightarrow> error + MatrixWorker \<times> MatrixDisplay" where
  "step_write r w d =
     (if w_state w = Write then
        (case w_text w of
           [] \<Rightarrow> Inr (w\<lparr>w_state := Erase\<rparr>, d)
         | v # rest \<Rightarrow>
            (case maxyx (screen d) of (height, width) \<Rightarrow>
               (case (w_y w, w_x w) of
                  (Some y0, Some x0) \<Rightarrow>
                    (let d1 = display_write v (y0, x0) (w_id w) d;
                         w1 = w\<lparr>w_text := rest, w_cells := w_cells w @ [(y0, x0)]\<rparr>
                     in case increment_position (r_wrap r) (width - 1) (height - 2) w1 of
                          Inl e \<Rightarrow> Inl e
                        | Inr w2 \<Rightarrow>
                            if int (length (w_cells w2)) > MAX_LEN (klass d1)
                            then Inr (w2\<lparr>w_cells := tl (w_cells w2)\<rparr>,
                                      erase (hd (w_cells w2)) (w_id w2) d1)
                            else Inr (w2, d1))
                | _ \<Rightarrow> Inl TypeError)))
      else Inr (w, d))"

definition step_erase :: "MatrixWorker \<Rightarrow> MatrixDisplay \<Rightarrow> MatrixWorker \<times> MatrixDisplay" where
  "step_erase w d =
     (if w_state w = Erase then
        (let (w1, d1) = (case w_cells w of
                           [] \<Rightarrow> (w, d)
                         | c # rest \<Rightarrow> (w\<lparr>w_cells := rest\<rparr>, erase c (w_id w) d))
         in (if w_cells w1 = [] then w1\<lparr>w_state := Init\<rparr> else w1, d1))
      else (w, d))"

text \<open>\<open>pop(0)\<close> and \<open>pop()\<close> under the guard \<open>if self.cells\<close>.\<close>

definition shed_oldest :: "MatrixWorker \<times> MatrixDisplay \<Rightarrow> MatrixWorker \<times> MatrixDisplay" where
  "shed_oldest p =
     (case p of (w, d) \<Rightarrow>
        (case w_cells w of
           [] \<Rightarrow> (w, d)
         | c # rest \<Rightarrow> (w\<lparr>w_cells := rest\<rparr>, erase c (w_id w) d)))"

definition shed_newest :: "MatrixWorker \<times> MatrixDisplay \<Rightarrow> MatrixWorker \<times> MatrixDisplay" where
  "shed_newest p =
     (case p of (w, d) \<Rightarrow>
        (if w_cells w = [] then (w, d)
         else (w\<lparr>w_cells := butlast (w_cells w)\<rparr>, erase (last (w_cells w)) (w_id w) d)))"

definition step_exit :: "MatrixWorker \<Rightarrow> MatrixDisplay \<Rightarrow> MatrixWorker \<times> MatrixDisplay" where
  "step_exit w d =
     (if w_state w = Exit then shed_newest (shed_oldest (shed_oldest (w, d))) else (w, d))"

definition worker_step :: "rnd \<Rightarrow> MatrixWorker \<Rightarrow> MatrixDisplay \<Rightarrow> error + MatrixWorker \<times> MatrixDisplay" where
  "worker_step r w d =
     (case step_init r w d of
        Inl e \<Rightarrow> Inl e
      | Inr w1 \<Rightarrow>
         (case step_write r w1 d of
            Inl e \<Rightarrow> Inl e
          | Inr (w2, d2) \<Rightarrow>
             (case step_erase w2 d2 of (w3, d3) \<Rightarrow> Inr (step_exit w3 d3))))"

section \<open>The scheduler\<close>

text \<open>
  What one pass of the polling loop takes from its environment: the clock readings of
  \<open>time.time()\<close> (one in the loop condition of \<open>run\<close>, one before the refresh, one
  for each worker), the random draws each worker may use, and the result of \<open>getch\<close>.
\<close>

record tick =
  t_loop :: real
  t_refresh :: real
  t_worker :: "nat \<Rightarrow> real"
  draws :: "nat \<Rightarrow> rnd"
  getch :: int

fun step_workers :: "tick \<Rightarrow> nat list \<Rightarrow> MatrixDisplay \<Rightarrow> error + MatrixDisplay" where
  "step_workers e [] d = Inr d"
| "step_workers e (worker_id # ids) d =
     (if \<not> worker_id < length (next_worker_wake_time d) then Inl IndexError
      else if \<not> t_worker e worker_id > next_worker_wake_time d ! worker_id
      then step_workers e ids d
      else if \<not> worker_id < length (worker_intervals d) then Inl IndexError
      else if \<not> worker_id < length (workers d) then Inl IndexError
      else
        (let d1 = d\<lparr>next_worker_wake_time :=
                      (next_worker_wake_time d)
                        [worker_id := next_worker_wake_time d ! worker_id
                                      + worker_intervals d ! worker_id]\<rparr>
         in case worker_step (draws e worker_id) (workers d1 ! worker_id) d1 of
              Inl err \<Rightarrow> Inl err
            | Inr (w', d2) \<Rightarrow>
                step_workers e ids (d2\<lparr>workers := (workers d2)[worker_id := w']\<rparr>)))"

definition display_step :: "tick \<Rightarrow> MatrixDisplay \<Rightarrow> error + MatrixDisplay" where
  "display_step e d =
     (case (if t_refresh e > next_refresh d
            then refresh (d\<lparr>next_refresh := next_refresh d + refresh_interval d\<rparr>)
            else Inr d) of
        Inl err \<Rightarrow> Inl err
      | Inr d1 \<Rightarrow> step_workers e [0..<WORKERS (klass d1)] d1)"

text \<open>
  The loops of \<open>run\<close> poll for as long as the clock and the keyboard let them; the list
  of ticks is the part of the environment they get to see. \<open>None\<close> means that the list
  ended with the loop still running.
\<close>

definition broadcast_exit :: "MatrixDisplay \<Rightarrow> MatrixDisplay" where
  "broadcast_exit d = d\<lparr>workers := map (\<lambda>w. w\<lparr>w_state := Exit\<rparr>) (workers d)\<rparr>"

definition drained :: "MatrixDisplay \<Rightarrow> bool" where
  "drained d = (cells d = Map.empty \<and> recent_removals d = {})"

fun drain :: "tick list \<Rightarrow> MatrixDisplay \<Rightarrow> (error + MatrixDisplay) option" where
  "drain [] d = (if drained d then Some (Inr d) else None)"
| "drain (e # es) d =
     (if drained d then Some (Inr d)
      else case display_step e d of
             Inl err \<Rightarrow> Some (Inl err)
           | Inr d' \<Rightarrow> drain es d')"




subsection \<open>The constructor\<close>




section \<open>Reachable states and the scenario of the specification\<close>

text \<open>
  The grid bookkeeping starts empty (\<open>__init__\<close>) and is changed by \<open>write\<close>,
  \<open>erase\<close> and \<open>refresh\<close> only.
\<close>

inductive grid_reachable :: "MatrixDisplay \<Rightarrow> bool" where
  fresh: "cells d = Map.empty \<Longrightarrow> recent_additions d = {} \<Longrightarrow> recent_removals d = {}
          \<Longrightarrow> grid_reachable d"
| after_write: "grid_reachable d \<Longrightarrow> grid_reachable (display_write v c a d)"
| after_erase: "grid_reachable d \<Longrightarrow> grid_reachable (erase c a d)"
| after_refresh: "grid_reachable d \<Longrightarrow> refresh d = Inr d' \<Longrightarrow> grid_reachable d'"

text \<open>
  A worker is created by \<open>__init__\<close>, changed by its own \<open>step\<close> against a display of
  the given class attributes and window size, and set to \<open>exit\<close> by \<open>run\<close>.
\<close>

inductive actor_reachable :: "class_attrs \<Rightarrow> int \<times> int \<Rightarrow> MatrixWorker \<Rightarrow> bool"
  for k :: class_attrs and yx :: "int \<times> int" where
  created: "actor_reachable k yx (new_worker worker_id (DIRECTION k))"
| stepped: "actor_reachable k yx w \<Longrightarrow> klass d = k \<Longrightarrow> maxyx (screen d) = yx
            \<Longrightarrow> worker_step r w d = Inr (w', d') \<Longrightarrow> actor_reachable k yx w'"
| signalled: "actor_reachable k yx w \<Longrightarrow> actor_reachable k yx (w\<lparr>w_state := Exit\<rparr>)"

text \<open>The rows and columns \<open>step\<close> hands to \<open>increment_position\<close> as the window.\<close>

definition in_window :: "int \<times> int \<Rightarrow> cell \<Rightarrow> bool" where
  "in_window yx c =
     (0 \<le> fst c \<and> fst c \<le> fst yx - 2 \<and> 0 \<le> snd c \<and> snd c \<le> snd yx - 1)"

text \<open>
  The literal scenario: 5 rows by 10 columns, maximum stream length 3, direction (0,1),
  one worker, about to write \<open>AB\<close> from row 0, column 3.
\<close>

definition scenario_display :: MatrixDisplay where
  "scenario_display =
     \<lparr>klass = \<lparr>FPS_MAX = 60, WORKERS = 1, DIRECTION = (0, 1), MIN_CHAR_PER_SECOND = 40,
                MAX_CHAR_PER_SECOND = 50, MAX_LEN = 3, WARM_UP_DURATION = 2\<rparr>,
      screen = \<lparr>maxyx = (5, 10), drawn = Map.empty, flushes = 0\<rparr>,
      lines = [''AB''],
      workers = [new_worker 0 (0, 1)],
      refresh_interval = 1 / 60,
      worker_intervals = [1 / 40],
      cells = Map.empty, recent_additions = {}, recent_removals = {},
      next_refresh = 1 / 60,
      next_worker_wake_time = [1 / 40]\<rparr>"

definition scenario_worker :: MatrixWorker where
  "scenario_worker =
     \<lparr>w_id = 0, w_text = ''AB'', w_x = Some 3, w_y = Some 0, w_dx = 0, w_dy = 1,
      w_cells = [], w_state = Write\<rparr>"

text \<open>
  What the window rule maintains for a worker: the cells of its list lie in the window, and
  so does its position whenever it is about to write.
\<close>

definition win_inv :: "int \<times> int \<Rightarrow> MatrixWorker \<Rightarrow> bool" where
  "win_inv yx w =
     ((\<forall>c \<in> set (w_cells w). in_window yx c)
      \<and> (w_state w = Write \<longrightarrow> (\<exists>y0 x0. w_y w = Some y0 \<and> w_x w = Some x0 \<and> in_window yx (y0, x0))))"

text \<open>Every cell whose occupancy entry or drawn glyph differs between two displays lies in the window.\<close>

definition touches_window :: "int \<times> int \<Rightarrow> MatrixDisplay \<Rightarrow> MatrixDisplay \<Rightarrow> bool" where
  "touches_window yx d d' =
     (\<forall>c. cells d' c \<noteq> cells d c \<or> drawn (screen d') c \<noteq> drawn (screen d) c \<longrightarrow> in_window yx c)"

text \<open>
  The printable ASCII range in the usual sense, the space included (codes 32 to 126): the
  words of the specification, to be compared with \<open>glyph\<close>.
\<close>

definition printable_ascii :: "char \<Rightarrow> bool" where
  "printable_ascii ch = (32 \<le> (of_char ch :: nat) \<and> (of_char ch :: nat) \<le> 126)"

section \<open>Shutdown: invariants and a second scenario\<close>

text \<open>Calls of \<open>MatrixDisplay.step\<close> in a row, one per tick, with no loop condition in between.\<close>

fun polls :: "tick list \<Rightarrow> MatrixDisplay \<Rightarrow> error + MatrixDisplay" where
  "polls [] d = Inr d"
| "polls (e # es) d = (case display_step e d of Inl err \<Rightarrow> Inl err | Inr d' \<Rightarrow> polls es d')"











text \<open>A second scenario: one worker on a window of 3 rows and 2 columns (so two usable rows), maximum length 4, the corpus \<open>ABCDEF\<close>.\<close>

definition stale_start :: MatrixDisplay where
  "stale_start =
     \<lparr>klass = \<lparr>FPS_MAX = 60, WORKERS = 1, DIRECTION = (0, 1), MIN_CHAR_PER_SECOND = 40,
                MAX_CHAR_PER_SECOND = 50, MAX_LEN = 4, WARM_UP_DURATION = 2\<rparr>,
      screen = \<lparr>maxyx = (3, 2), drawn = Map.empty, flushes = 0\<rparr>,
      lines = [''ABCDEF''],
      workers = [new_worker 0 (0, 1)],
      refresh_interval = 1 / 60,
      worker_intervals = [1 / 40],
      cells = Map.empty, recent_additions = {}, recent_removals = {},
      next_refresh = 1 / 60,
      next_worker_wake_time = [1 / 40]\<rparr>"

text \<open>The tick \<open>j\<close> of the second scenario: the worker is due, the refresh is not, no key is pressed; \<open>wrap\<close> is the draw of a wrap.\<close>

definition write_tick :: "nat \<Rightarrow> nat \<Rightarrow> tick" where
  "write_tick j wrap =
     \<lparr>t_loop = 0, t_refresh = 0, t_worker = (\<lambda>i. (real j + 2) / 40),
      draws = (\<lambda>i. \<lparr>r_line = 0, r_y = 0, r_x = 0, r_wrap = wrap\<rparr>), getch = - 1\<rparr>"

text \<open>A tick late enough for the refresh and every worker to be due.\<close>

definition full_tick :: tick where
  "full_tick =
     \<lparr>t_loop = 0, t_refresh = 1, t_worker = (\<lambda>i. 1),
      draws = (\<lambda>i. \<lparr>r_line = 0, r_y = 0, r_x = 0, r_wrap = 0\<rparr>), getch = - 1\<rparr>"

text \<open>A tick at which nothing is due.\<close>

definition idle_tick :: tick where
  "idle_tick =
     \<lparr>t_loop = 0, t_refresh = 0, t_worker = (\<lambda>i. 0),
      draws = (\<lambda>i. \<lparr>r_line = 0, r_y = 0, r_x = 0, r_wrap = 0\<rparr>), getch = - 1\<rparr>"

text \<open>Six ticks that write \<open>ABCDEF\<close>: down column 0 twice, then down column 1.\<close>

definition stale_ticks :: "tick list" where
  "stale_ticks = [write_tick 0 0, write_tick 1 0, write_tick 2 0, write_tick 3 1, write_tick 4 0, write_tick 5 0]"




section \<open>The ownership rule of \<open>erase\<close>\<close>

lemma erase_foreign: "\<not> (\<exists>v. cells d c = Some (a, v)) \<Longrightarrow> erase c a d = d"
  by (auto simp: erase_def split: option.splits)

lemma erase_foreign_funpow: "\<not> (\<exists>v. cells d c = Some (a, v)) \<Longrightarrow> (erase c a ^^ n) d = d"
  by (induction n) (simp_all add: erase_foreign)

text \<open>
  Claim C1. \<open>erase(cell, worker_id)\<close> on a vacant cell, or on a cell whose occupant is
  another worker, returns the display as it was (occupancy map, both pending sets and
  the window), however often it is repeated; and whenever the occupancy map or a pending
  set does change, the cell was occupied by \<open>worker_id\<close>.
\<close>

theorem erase_changes_only_own_cell:
  "(cells d c = None \<or> (\<exists>owner_id v. cells d c = Some (owner_id, v) \<and> owner_id \<noteq> a)
      \<longrightarrow> erase c a d = d \<and> (\<forall>n. (erase c a ^^ n) d = d))
   \<and> (cells (erase c a d) \<noteq> cells d
        \<or> recent_additions (erase c a d) \<noteq> recent_additions d
        \<or> recent_removals (erase c a d) \<noteq> recent_removals d
      \<longrightarrow> (\<exists>v. cells d c = Some (a, v)))"
proof (intro conjI impI)
  assume "cells d c = None \<or> (\<exists>owner_id v. cells d c = Some (owner_id, v) \<and> owner_id \<noteq> a)"
  then have foreign: "\<not> (\<exists>v. cells d c = Some (a, v))" by auto
  show "erase c a d = d" using foreign by (rule erase_foreign)
  show "\<forall>n. (erase c a ^^ n) d = d" using foreign by (simp add: erase_foreign_funpow)
next
  assume changed: "cells (erase c a d) \<noteq> cells d
        \<or> recent_additions (erase c a d) \<noteq> recent_additions d
        \<or> recent_removals (erase c a d) \<noteq> recent_removals d"
  show "\<exists>v. cells d c = Some (a, v)"
  proof (rule ccontr)
    assume "\<not> (\<exists>v. cells d c = Some (a, v))"
    then have "erase c a d = d" by (rule erase_foreign)
    with changed show False by simp
  qed
qed

theorem erase_changes_only_own_cell_witness:
  "cells (display_write CHR ''A'' (0, 3) 0 scenario_display) (0, 3) = Some (0, CHR ''A'')
   \<and> erase (0, 3) 1 (display_write CHR ''A'' (0, 3) 0 scenario_display)
       = display_write CHR ''A'' (0, 3) 0 scenario_display
   \<and> (erase (0, 3) 1 ^^ 4) (display_write CHR ''A'' (0, 3) 0 scenario_display)
       = display_write CHR ''A'' (0, 3) 0 scenario_display
   \<and> cells scenario_display (1, 1) = None
   \<and> erase (1, 1) 0 scenario_display = scenario_display
   \<and> cells (erase (0, 3) 0 (display_write CHR ''A'' (0, 3) 0 scenario_display))
       \<noteq> cells (display_write CHR ''A'' (0, 3) 0 scenario_display)"
proof -
  let ?d = "display_write CHR ''A'' (0, 3) 0 scenario_display"
  have occ: "cells ?d (0, 3) = Some (0, CHR ''A'')" by (simp add: display_write_def)
  have vac: "cells scenario_display (1, 1) = None" by (simp add: scenario_display_def)
  have own: "cells (erase (0, 3) 0 ?d) (0, 3) = None"
    by (simp add: erase_def display_write_def)
  from own occ have ch: "cells (erase (0, 3) 0 ?d) \<noteq> cells ?d" by (metis option.distinct(1))
  from occ erase_changes_only_own_cell [of ?d "(0, 3)" 1]
  have "erase (0, 3) 1 ?d = ?d \<and> (erase (0, 3) 1 ^^ 4) ?d = ?d" by simp
  moreover from vac erase_changes_only_own_cell [of scenario_display "(1, 1)" 0]
  have "erase (1, 1) 0 scenario_display = scenario_display" by simp
  ultimately show ?thesis using occ vac ch by simp
qed

section \<open>\<open>write\<close>\<close>

text \<open>
  Claim C2. \<open>write(value, cell, worker_id)\<close> sets the occupancy entry of the cell to
  \<open>(worker_id, value)\<close> whatever the entry was and whoever owned it; afterwards the
  cell is a pending addition and not a pending removal.
\<close>

theorem write_last_writer_wins:
  "cells (display_write v c a d) c = Some (a, v)
   \<and> c \<in> recent_additions (display_write v c a d)
   \<and> c \<notin> recent_removals (display_write v c a d)"
  by (simp add: display_write_def)

section \<open>The pending sets\<close>

lemma grid_reachable_inv:
  "grid_reachable d \<Longrightarrow>
     recent_additions d \<inter> recent_removals d = {} \<and> recent_additions d \<subseteq> dom (cells d)"
proof (induction rule: grid_reachable.induct)
  case (fresh d)
  then show ?case by simp
next
  case (after_write d v c a)
  then show ?case by (auto simp: display_write_def)
next
  case (after_erase d c a)
  then show ?case by (auto simp: erase_def split: option.splits)
next
  case (after_refresh d d')
  then show ?case by (auto simp: refresh_def Let_def split: if_splits)
qed

lemma grid_reachable_refresh: "grid_reachable d \<Longrightarrow> \<exists>d'. refresh d = Inr d'"
  using grid_reachable_inv [of d] by (auto simp: refresh_def Let_def)

text \<open>
  Claim C4. In every state of the grid reached from the empty bookkeeping by any sequence
  of \<open>write\<close>, \<open>erase\<close> and \<open>refresh\<close>, no cell is both a pending addition and a
  pending removal.
\<close>

theorem pending_sets_disjoint:
  "grid_reachable d \<Longrightarrow> recent_additions d \<inter> recent_removals d = {}"
  using grid_reachable_inv by blast

theorem pending_sets_disjoint_witness:
  "grid_reachable (erase (0, 3) 0 (display_write CHR ''A'' (0, 3) 0 scenario_display))
   \<and> recent_additions (erase (0, 3) 0 (display_write CHR ''A'' (0, 3) 0 scenario_display))
       \<inter> recent_removals (erase (0, 3) 0 (display_write CHR ''A'' (0, 3) 0 scenario_display)) = {}
   \<and> recent_removals (erase (0, 3) 0 (display_write CHR ''A'' (0, 3) 0 scenario_display)) = {(0, 3)}"
proof -
  have "grid_reachable scenario_display"
    by (rule grid_reachable.fresh) (simp_all add: scenario_display_def)
  then have r: "grid_reachable (erase (0, 3) 0 (display_write CHR ''A'' (0, 3) 0 scenario_display))"
    by (intro grid_reachable.after_erase grid_reachable.after_write)
  have "recent_removals (erase (0, 3) 0 (display_write CHR ''A'' (0, 3) 0 scenario_display)) = {(0, 3)}"
    by (simp add: erase_def display_write_def scenario_display_def)
  with r pending_sets_disjoint [OF r] show ?thesis by simp
qed

section \<open>Position and window\<close>

lemma randint_range: "randint a b r = Inr v \<Longrightarrow> a \<le> v \<and> v \<le> b"
proof -
  assume h: "randint a b r = Inr v"
  then have ab: "a \<le> b" by (auto simp: randint_def split: if_splits)
  from h ab have v: "v = a + int (r mod nat (b - a + 1))" by (simp add: randint_def)
  have "r mod nat (b - a + 1) < nat (b - a + 1)" using ab by (intro mod_less_divisor) simp
  then show ?thesis using v ab by linarith
qed

lemma wrap_range: "0 \<le> (m::int) \<Longrightarrow> 0 \<le> a mod (m + 1) \<and> a mod (m + 1) \<le> m"
  using pos_mod_bound [of "m + 1" a] pos_mod_sign [of "m + 1" a] by linarith

lemma increment_position_cases:
  assumes "increment_position r wxm wym w = Inr w'"
  obtains x0 y0 xr where "w_x w = Some x0" "w_y w = Some y0"
      "\<not> (0 \<le> y0 + w_dy w \<and> y0 + w_dy w \<le> wym)" "wym + 1 \<noteq> 0" "randint 0 wxm r = Inr xr"
      "w' = w\<lparr>w_x := Some xr, w_y := Some ((y0 + w_dy w) mod (wym + 1))\<rparr>"
  | x0 y0 yr where "w_x w = Some x0" "w_y w = Some y0"
      "0 \<le> y0 + w_dy w" "y0 + w_dy w \<le> wym"
      "\<not> (0 \<le> x0 + w_dx w \<and> x0 + w_dx w \<le> wxm)" "wxm + 1 \<noteq> 0" "randint 0 wym r = Inr yr"
      "w' = w\<lparr>w_x := Some ((x0 + w_dx w) mod (wxm + 1)), w_y := Some yr\<rparr>"
  | x0 y0 where "w_x w = Some x0" "w_y w = Some y0"
      "0 \<le> y0 + w_dy w" "y0 + w_dy w \<le> wym" "0 \<le> x0 + w_dx w" "x0 + w_dx w \<le> wxm"
      "w' = w\<lparr>w_x := Some (x0 + w_dx w), w_y := Some (y0 + w_dy w)\<rparr>"
proof -
  from assms obtain x0 y0 where xy: "w_x w = Some x0" "w_y w = Some y0"
    by (auto simp: increment_position_def split: option.splits)
  show thesis
  proof (cases "0 \<le> y0 + w_dy w \<and> y0 + w_dy w \<le> wym")
    case False
    with assms xy obtain xr where "wym + 1 \<noteq> 0" "randint 0 wxm r = Inr xr"
        "w' = w\<lparr>w_x := Some xr, w_y := Some ((y0 + w_dy w) mod (wym + 1))\<rparr>"
      by (auto simp: increment_position_def Let_def split: if_splits sum.splits)
    with xy False show thesis by (intro that(1)[of x0 y0 xr]) simp_all
  next
    case yin: True
    show thesis
    proof (cases "0 \<le> x0 + w_dx w \<and> x0 + w_dx w \<le> wxm")
      case False
      with assms xy yin obtain yr where "wxm + 1 \<noteq> 0" "randint 0 wym r = Inr yr"
          "w' = w\<lparr>w_x := Some ((x0 + w_dx w) mod (wxm + 1)), w_y := Some yr\<rparr>"
        by (auto simp: increment_position_def Let_def split: if_splits sum.splits)
      with xy yin False show thesis by (intro that(2)[of x0 y0 yr]) simp_all
    next
      case True
      with assms xy yin show thesis
        by (intro that(3)[of x0 y0]) (auto simp: increment_position_def Let_def)
    qed
  qed
qed

lemma increment_position_fields:
  assumes "increment_position r wxm wym w = Inr w'"
  shows "w_cells w' = w_cells w \<and> w_state w' = w_state w \<and> w_id w' = w_id w \<and> w_text w' = w_text w
     \<and> w_dx w' = w_dx w \<and> w_dy w' = w_dy w"
  using assms by (cases rule: increment_position_cases) simp_all

lemma increment_position_range:
  assumes "increment_position r wxm wym w = Inr w'" "0 \<le> wxm" "0 \<le> wym"
  shows "\<exists>y1 x1. w_y w' = Some y1 \<and> w_x w' = Some x1 \<and> 0 \<le> y1 \<and> y1 \<le> wym \<and> 0 \<le> x1 \<and> x1 \<le> wxm"
  using assms(1)
proof (cases rule: increment_position_cases)
  case (1 x0 y0 xr)
  then show ?thesis using wrap_range [OF assms(3)] randint_range [of 0 wxm r xr] by simp
next
  case (2 x0 y0 yr)
  then show ?thesis using wrap_range [OF assms(2)] randint_range [of 0 wym r yr] by simp
next
  case (3 x0 y0)
  then show ?thesis by simp
qed

section \<open>The blocks of \<open>step\<close>\<close>

lemma touches_refl: "touches_window yx d d"
  by (simp add: touches_window_def)

lemma touches_trans: "touches_window yx d d1 \<Longrightarrow> touches_window yx d1 d2 \<Longrightarrow> touches_window yx d d2"
  unfolding touches_window_def by metis

lemma touches_write: "in_window yx c \<Longrightarrow> touches_window yx d (display_write v c a d)"
  by (auto simp: touches_window_def display_write_def addstr_def)

lemma touches_erase: "in_window yx c \<Longrightarrow> touches_window yx d (erase c a d)"
  by (auto simp: touches_window_def erase_def addstr_def split: option.splits)

lemma write_static: "klass (display_write v c a d) = klass d \<and> maxyx (screen (display_write v c a d)) = maxyx (screen d)
   \<and> lines (display_write v c a d) = lines d \<and> workers (display_write v c a d) = workers d"
  by (simp add: display_write_def addstr_def)

lemma erase_static: "klass (erase c a d) = klass d \<and> maxyx (screen (erase c a d)) = maxyx (screen d)
   \<and> lines (erase c a d) = lines d \<and> workers (erase c a d) = workers d"
  by (simp add: erase_def addstr_def split: option.splits)

lemma step_init_other: "w_state w \<noteq> Init \<Longrightarrow> step_init r w d = Inr w"
  by (simp add: step_init_def)

lemma step_init_spawn:
  assumes "w_state w = Init" "step_init r w d = Inr w1"
  shows "\<exists>s yr xr. choice (lines d) (r_line r) = Inr s
           \<and> randint 0 (fst (maxyx (screen d)) - 2) (r_y r) = Inr yr
           \<and> randint 0 (snd (maxyx (screen d)) - 1) (r_x r) = Inr xr
           \<and> w1 = w\<lparr>w_text := filter glyph s, w_y := Some yr, w_x := Some xr,
                     w_cells := [], w_state := Write\<rparr>"
  using assms by (auto simp: step_init_def split: prod.splits sum.splits)

lemma step_init_win:
  assumes "win_inv yx w" "maxyx (screen d) = yx" "step_init r w d = Inr w1"
  shows "win_inv yx w1"
proof (cases "w_state w = Init")
  case False
  with assms show ?thesis by (simp add: step_init_other)
next
  case True
  from step_init_spawn [OF True assms(3)] obtain s yr xr where
    y: "randint 0 (fst yx - 2) (r_y r) = Inr yr" and x: "randint 0 (snd yx - 1) (r_x r) = Inr xr"
    and w1: "w1 = w\<lparr>w_text := filter glyph s, w_y := Some yr, w_x := Some xr,
                     w_cells := [], w_state := Write\<rparr>"
    using assms(2) by auto
  from randint_range [OF y] randint_range [OF x] w1 show ?thesis
    by (auto simp: win_inv_def in_window_def)
qed

lemma step_write_idle: "w_state w \<noteq> Write \<Longrightarrow> step_write r w d = Inr (w, d)"
  by (simp add: step_write_def)

lemma step_write_done: "w_state w = Write \<Longrightarrow> w_text w = [] \<Longrightarrow> step_write r w d = Inr (w\<lparr>w_state := Erase\<rparr>, d)"
  by (simp add: step_write_def)

lemma step_write_glyph:
  assumes "w_state w = Write" "w_text w = v # rest" "step_write r w d = Inr (w', d')"
  shows "\<exists>y0 x0 w2. w_y w = Some y0 \<and> w_x w = Some x0
     \<and> increment_position (r_wrap r) (snd (maxyx (screen d)) - 1) (fst (maxyx (screen d)) - 2)
          (w\<lparr>w_text := rest, w_cells := w_cells w @ [(y0, x0)]\<rparr>) = Inr w2
     \<and> (if int (length (w_cells w2)) > MAX_LEN (klass d)
         then w' = w2\<lparr>w_cells := tl (w_cells w2)\<rparr>
              \<and> d' = erase (hd (w_cells w2)) (w_id w2) (display_write v (y0, x0) (w_id w) d)
         else w' = w2 \<and> d' = display_write v (y0, x0) (w_id w) d)"
  using assms
  by (auto simp: step_write_def Let_def display_write_def split: prod.splits option.splits sum.splits if_splits)


lemma step_write_win:
  assumes inv: "win_inv yx w" and yx: "maxyx (screen d) = yx" and st: "step_write r w d = Inr (w', d')"
  shows "win_inv yx w' \<and> touches_window yx d d'"
proof (cases "w_state w = Write")
  case False
  with st show ?thesis using inv by (simp add: step_write_idle touches_refl)
next
  case wr: True
  show ?thesis
  proof (cases "w_text w")
    case Nil
    with wr st have "w' = w\<lparr>w_state := Erase\<rparr>" "d' = d" by (simp_all add: step_write_done)
    with inv show ?thesis by (simp add: win_inv_def touches_refl)
  next
    case (Cons v rest)
    from step_write_glyph [OF wr Cons st] obtain y0 x0 w2 where
      pos: "w_y w = Some y0" "w_x w = Some x0"
      and inc: "increment_position (r_wrap r) (snd yx - 1) (fst yx - 2)
          (w\<lparr>w_text := rest, w_cells := w_cells w @ [(y0, x0)]\<rparr>) = Inr w2"
      and res: "if int (length (w_cells w2)) > MAX_LEN (klass d)
         then w' = w2\<lparr>w_cells := tl (w_cells w2)\<rparr>
              \<and> d' = erase (hd (w_cells w2)) (w_id w2) (display_write v (y0, x0) (w_id w) d)
         else w' = w2 \<and> d' = display_write v (y0, x0) (w_id w) d"
      using yx by auto
    from inv wr pos have here: "in_window yx (y0, x0)" by (auto simp: win_inv_def)
    then have bounds: "0 \<le> snd yx - 1" "0 \<le> fst yx - 2" by (auto simp: in_window_def)
    from increment_position_fields [OF inc]
    have f2: "w_cells w2 = w_cells w @ [(y0, x0)]" "w_state w2 = Write" using wr by simp_all
    from increment_position_range [OF inc bounds]
    have p2: "\<exists>y1 x1. w_y w2 = Some y1 \<and> w_x w2 = Some x1 \<and> in_window yx (y1, x1)"
      by (auto simp: in_window_def)
    from inv here f2 have c2: "\<forall>c \<in> set (w_cells w2). in_window yx c" by (auto simp: win_inv_def)
    have inv2: "win_inv yx w2" using c2 p2 by (simp add: win_inv_def)
    have t1: "touches_window yx d (display_write v (y0, x0) (w_id w) d)"
      using here by (rule touches_write)
    show ?thesis
    proof (cases "int (length (w_cells w2)) > MAX_LEN (klass d)")
      case False
      with res inv2 t1 show ?thesis by simp
    next
      case True
      with res have w': "w' = w2\<lparr>w_cells := tl (w_cells w2)\<rparr>"
        and d': "d' = erase (hd (w_cells w2)) (w_id w2) (display_write v (y0, x0) (w_id w) d)" by simp_all
      have ne: "w_cells w2 \<noteq> []" using f2 by simp
      then have "hd (w_cells w2) \<in> set (w_cells w2)" by simp
      with c2 have "in_window yx (hd (w_cells w2))" by blast
      then have "touches_window yx (display_write v (y0, x0) (w_id w) d) d'"
        unfolding d' by (rule touches_erase)
      with t1 have t: "touches_window yx d d'" by (rule touches_trans)
      have "set (tl (w_cells w2)) \<subseteq> set (w_cells w2)" using ne by (auto dest: list.set_sel(2))
      with c2 p2 f2 w' have "win_inv yx w'" by (auto simp: win_inv_def)
      with t show ?thesis by simp
    qed
  qed
qed

lemma step_erase_win:
  assumes inv: "win_inv yx w" and st: "step_erase w d = (w', d')"
  shows "win_inv yx w' \<and> touches_window yx d d'"
proof (cases "w_state w = Erase")
  case False
  with st inv show ?thesis by (simp add: step_erase_def touches_refl)
next
  case er: True
  show ?thesis
  proof (cases "w_cells w")
    case Nil
    with er st have "w' = w\<lparr>w_state := Init\<rparr>" "d' = d" by (simp_all add: step_erase_def)
    with inv Nil show ?thesis by (simp add: win_inv_def touches_refl)
  next
    case (Cons c rest)
    with er st have d': "d' = erase c (w_id w) d"
      and w': "w' = (if rest = [] then w\<lparr>w_cells := rest, w_state := Init\<rparr> else w\<lparr>w_cells := rest\<rparr>)"
      by (auto simp: step_erase_def)
    from inv Cons have "in_window yx c" by (simp add: win_inv_def)
    then have "touches_window yx d d'" unfolding d' by (rule touches_erase)
    moreover from inv Cons er w' have "win_inv yx w'" by (auto simp: win_inv_def)
    ultimately show ?thesis by simp
  qed
qed

lemma shed_oldest_win:
  assumes "\<forall>c \<in> set (w_cells w). in_window yx c" "shed_oldest (w, d) = (w', d')"
  shows "(\<forall>c \<in> set (w_cells w'). in_window yx c) \<and> touches_window yx d d' \<and> w_state w' = w_state w"
  using assms by (cases "w_cells w") (auto simp: shed_oldest_def touches_refl touches_erase)

lemma shed_newest_win:
  assumes "\<forall>c \<in> set (w_cells w). in_window yx c" "shed_newest (w, d) = (w', d')"
  shows "(\<forall>c \<in> set (w_cells w'). in_window yx c) \<and> touches_window yx d d' \<and> w_state w' = w_state w"
proof (cases "w_cells w = []")
  case True
  with assms show ?thesis by (simp add: shed_newest_def touches_refl)
next
  case False
  with assms(2) have w': "w' = w\<lparr>w_cells := butlast (w_cells w)\<rparr>"
    and d': "d' = erase (last (w_cells w)) (w_id w) d" by (simp_all add: shed_newest_def)
  from False assms(1) have "in_window yx (last (w_cells w))" by simp
  then have "touches_window yx d d'" unfolding d' by (rule touches_erase)
  moreover have "\<forall>c \<in> set (w_cells w'). in_window yx c"
    using assms(1) w' by (auto dest: in_set_butlastD)
  ultimately show ?thesis using w' by simp
qed

lemma step_exit_win:
  assumes inv: "win_inv yx w" and st: "step_exit w d = (w', d')"
  shows "win_inv yx w' \<and> touches_window yx d d'"
proof (cases "w_state w = Exit")
  case False
  with st inv show ?thesis by (simp add: step_exit_def touches_refl)
next
  case ex: True
  obtain wa da where a: "shed_oldest (w, d) = (wa, da)" by (cases "shed_oldest (w, d)")
  obtain wb db where b: "shed_oldest (wa, da) = (wb, db)" by (cases "shed_oldest (wa, da)")
  from ex st a b have c: "shed_newest (wb, db) = (w', d')" by (simp add: step_exit_def)
  from inv have c0: "\<forall>c \<in> set (w_cells w). in_window yx c" by (simp add: win_inv_def)
  note A = shed_oldest_win [OF c0 a]
  from A have ca: "\<forall>c \<in> set (w_cells wa). in_window yx c" by simp
  note B = shed_oldest_win [OF ca b]
  from B have cb: "\<forall>c \<in> set (w_cells wb). in_window yx c" by simp
  note C = shed_newest_win [OF cb c]
  from A B C ex have "w_state w' = Exit" by simp
  with C have "win_inv yx w'" by (simp add: win_inv_def)
  moreover from A B C have "touches_window yx d d'" by (blast intro: touches_trans)
  ultimately show ?thesis by simp
qed

lemma step_write_static:
  "step_write r w d = Inr (w', d') \<Longrightarrow> klass d' = klass d \<and> maxyx (screen d') = maxyx (screen d)"
proof (cases "w_state w = Write")
  case False
  assume "step_write r w d = Inr (w', d')"
  with False show ?thesis by (simp add: step_write_idle)
next
  case wr: True
  assume st: "step_write r w d = Inr (w', d')"
  show ?thesis
  proof (cases "w_text w")
    case Nil
    with wr st show ?thesis by (simp add: step_write_done)
  next
    case (Cons v rest)
    from step_write_glyph [OF wr Cons st] show ?thesis
      by (auto simp: write_static erase_static split: if_splits)
  qed
qed

lemma worker_step_phases:
  assumes "worker_step r w d = Inr (w', d')"
  obtains w1 w2 d2 w3 d3 where "step_init r w d = Inr w1" "step_write r w1 d = Inr (w2, d2)"
    "step_erase w2 d2 = (w3, d3)" "step_exit w3 d3 = (w', d')"
  using assms by (auto simp: worker_step_def split: sum.splits prod.splits)

lemma worker_step_win:
  assumes inv: "win_inv yx w" and yx: "maxyx (screen d) = yx" and st: "worker_step r w d = Inr (w', d')"
  shows "win_inv yx w' \<and> touches_window yx d d'"
  using st
proof (cases rule: worker_step_phases)
  case (1 w1 w2 d2 w3 d3)
  note i1 = step_init_win [OF inv yx 1(1)]
  note i2 = step_write_win [OF i1 yx 1(2)]
  from i2 have inv2: "win_inv yx w2" by simp
  note i3 = step_erase_win [OF inv2 1(3)]
  from i3 have inv3: "win_inv yx w3" by simp
  note i4 = step_exit_win [OF inv3 1(4)]
  from i2 i3 i4 show ?thesis by (blast intro: touches_trans)
qed

lemma actor_reachable_win: "actor_reachable k yx w \<Longrightarrow> win_inv yx w"
proof (induction rule: actor_reachable.induct)
  case (created worker_id)
  show ?case by (simp add: win_inv_def new_worker_def)
next
  case (stepped w d r w' d')
  then show ?case using worker_step_win by blast
next
  case (signalled w)
  then show ?case by (simp add: win_inv_def)
qed

section \<open>The bounded cell list\<close>

lemma step_write_length:
  assumes len: "int (length (w_cells w)) \<le> m" and m: "MAX_LEN (klass d) = m"
    and st: "step_write r w d = Inr (w', d')"
  shows "int (length (w_cells w')) \<le> m"
proof (cases "w_state w = Write")
  case False
  with st len show ?thesis by (simp add: step_write_idle)
next
  case wr: True
  show ?thesis
  proof (cases "w_text w")
    case Nil
    with wr st len show ?thesis by (auto simp: step_write_done)
  next
    case (Cons v rest)
    from step_write_glyph [OF wr Cons st] obtain y0 x0 w2 where
      inc: "increment_position (r_wrap r) (snd (maxyx (screen d)) - 1) (fst (maxyx (screen d)) - 2)
          (w\<lparr>w_text := rest, w_cells := w_cells w @ [(y0, x0)]\<rparr>) = Inr w2"
      and res: "if int (length (w_cells w2)) > MAX_LEN (klass d)
         then w' = w2\<lparr>w_cells := tl (w_cells w2)\<rparr>
              \<and> d' = erase (hd (w_cells w2)) (w_id w2) (display_write v (y0, x0) (w_id w) d)
         else w' = w2 \<and> d' = display_write v (y0, x0) (w_id w) d"
      by auto
    from increment_position_fields [OF inc] have c2: "w_cells w2 = w_cells w @ [(y0, x0)]" by simp
    show ?thesis
    proof (cases "int (length (w_cells w2)) > MAX_LEN (klass d)")
      case True
      with res have "w_cells w' = tl (w_cells w2)" by simp
      with c2 len show ?thesis by simp
    next
      case False
      with res m show ?thesis by simp
    qed
  qed
qed

lemma step_erase_length: "step_erase w d = (w', d') \<Longrightarrow> length (w_cells w') \<le> length (w_cells w)"
  by (auto simp: step_erase_def split: if_splits list.splits)

lemma step_exit_length: "step_exit w d = (w', d') \<Longrightarrow> length (w_cells w') \<le> length (w_cells w)"
  by (auto simp: step_exit_def shed_oldest_def shed_newest_def split: if_splits list.splits)

lemma step_init_length:
  "step_init r w d = Inr w1 \<Longrightarrow> length (w_cells w1) \<le> length (w_cells w)"
  by (cases "w_state w = Init") (auto simp: step_init_other dest: step_init_spawn)

lemma worker_step_length:
  assumes len: "int (length (w_cells w)) \<le> m" and m: "MAX_LEN (klass d) = m"
    and st: "worker_step r w d = Inr (w', d')"
  shows "int (length (w_cells w')) \<le> m"
  using st
proof (cases rule: worker_step_phases)
  case (1 w1 w2 d2 w3 d3)
  from step_init_length [OF 1(1)] len have "int (length (w_cells w1)) \<le> m" by simp
  from step_write_length [OF this m 1(2)] have "int (length (w_cells w2)) \<le> m" .
  with step_erase_length [OF 1(3)] step_exit_length [OF 1(4)] show ?thesis by simp
qed

lemma actor_reachable_length:
  "actor_reachable k yx w \<Longrightarrow> 0 \<le> MAX_LEN k \<Longrightarrow> int (length (w_cells w)) \<le> MAX_LEN k"
proof (induction rule: actor_reachable.induct)
  case (created worker_id)
  then show ?case by (simp add: new_worker_def)
next
  case (stepped w d r w' d')
  then show ?case using worker_step_length by blast
next
  case (signalled w)
  then show ?case by simp
qed

lemmas step_defs = worker_step_def step_init_def step_write_def step_erase_def step_exit_def
  shed_oldest_def shed_newest_def increment_position_def display_write_def erase_def addstr_def
  choice_def randint_def glyph_def Let_def

text \<open>
  Claim C5. With a maximum length that is not negative, the occupied-cell list of a worker
  is never longer than \<open>MAX_LEN\<close> in any state the worker is in between two calls of
  its \<open>step\<close>; and a \<open>write\<close> block that appends a cell to a list that then exceeds
  the maximum erases the oldest cell and drops it from the list before it returns.
\<close>

theorem cell_list_bounded:
  "(actor_reachable k yx w \<and> 0 \<le> MAX_LEN k \<longrightarrow> int (length (w_cells w)) \<le> MAX_LEN k)
   \<and> (w_state u = Write \<and> w_text u = v # rest \<and> step_write r u d = Inr (u', d')
        \<and> int (length (w_cells u)) + 1 > MAX_LEN (klass d)
      \<longrightarrow> (\<exists>y0 x0. w_y u = Some y0 \<and> w_x u = Some x0
             \<and> w_cells u' = tl (w_cells u @ [(y0, x0)])
             \<and> d' = erase (hd (w_cells u @ [(y0, x0)])) (w_id u)
                       (display_write v (y0, x0) (w_id u) d)))"
proof (intro conjI impI)
  assume "actor_reachable k yx w \<and> 0 \<le> MAX_LEN k"
  then show "int (length (w_cells w)) \<le> MAX_LEN k" using actor_reachable_length by blast
next
  assume h: "w_state u = Write \<and> w_text u = v # rest \<and> step_write r u d = Inr (u', d')
        \<and> int (length (w_cells u)) + 1 > MAX_LEN (klass d)"
  then have wr: "w_state u = Write" and tx: "w_text u = v # rest"
    and st: "step_write r u d = Inr (u', d')" and over: "int (length (w_cells u)) + 1 > MAX_LEN (klass d)"
    by simp_all
  from step_write_glyph [OF wr tx st] obtain y0 x0 w2 where
    pos: "w_y u = Some y0" "w_x u = Some x0"
    and inc: "increment_position (r_wrap r) (snd (maxyx (screen d)) - 1) (fst (maxyx (screen d)) - 2)
          (u\<lparr>w_text := rest, w_cells := w_cells u @ [(y0, x0)]\<rparr>) = Inr w2"
    and res: "if int (length (w_cells w2)) > MAX_LEN (klass d)
         then u' = w2\<lparr>w_cells := tl (w_cells w2)\<rparr>
              \<and> d' = erase (hd (w_cells w2)) (w_id w2) (display_write v (y0, x0) (w_id u) d)
         else u' = w2 \<and> d' = display_write v (y0, x0) (w_id u) d"
    by auto
  from increment_position_fields [OF inc]
  have f: "w_cells w2 = w_cells u @ [(y0, x0)]" "w_id w2 = w_id u" by simp_all
  with over res pos show "\<exists>y0 x0. w_y u = Some y0 \<and> w_x u = Some x0
             \<and> w_cells u' = tl (w_cells u @ [(y0, x0)])
             \<and> d' = erase (hd (w_cells u @ [(y0, x0)])) (w_id u)
                       (display_write v (y0, x0) (w_id u) d)"
    by simp
qed

lemma scenario_first_step: "worker_step \<lparr>r_line = 0, r_y = 0, r_x = 3, r_wrap = 0\<rparr> (new_worker 0 (0, 1)) scenario_display
   = Inr (scenario_worker\<lparr>w_text := ''B'', w_y := Some 1, w_cells := [(0, 3)]\<rparr>,
          display_write CHR ''A'' (0, 3) 0 scenario_display)"
  by (simp add: step_defs scenario_worker_def scenario_display_def new_worker_def)

lemma scenario_reach:
  "actor_reachable (klass scenario_display) (5, 10)
     (scenario_worker\<lparr>w_text := ''B'', w_y := Some 1, w_cells := [(0, 3)]\<rparr>)"
proof -
  have "actor_reachable (klass scenario_display) (5, 10) (new_worker 0 (DIRECTION (klass scenario_display)))"
    by (rule actor_reachable.created)
  moreover have "DIRECTION (klass scenario_display) = (0, 1)" "maxyx (screen scenario_display) = (5, 10)"
    by (simp_all add: scenario_display_def)
  ultimately show ?thesis using scenario_first_step actor_reachable.stepped [of "klass scenario_display" "(5, 10)"
      "new_worker 0 (0, 1)" scenario_display] by simp
qed

theorem cell_list_bounded_witness:
  "actor_reachable (klass scenario_display) (5, 10)
     (scenario_worker\<lparr>w_text := ''B'', w_y := Some 1, w_cells := [(0, 3)]\<rparr>)
   \<and> 0 \<le> MAX_LEN (klass scenario_display)
   \<and> int (length (w_cells (scenario_worker\<lparr>w_text := ''B'', w_y := Some 1, w_cells := [(0, 3)]\<rparr>)))
       \<le> MAX_LEN (klass scenario_display)
   \<and> step_write \<lparr>r_line = 0, r_y = 0, r_x = 0, r_wrap = 7\<rparr>
        (scenario_worker\<lparr>w_text := ''B'', w_y := Some 3, w_cells := [(0, 3), (1, 3), (2, 3)]\<rparr>)
        scenario_display
       = Inr (scenario_worker\<lparr>w_text := [], w_y := Some 0, w_x := Some 7,
                               w_cells := [(1, 3), (2, 3), (3, 3)]\<rparr>,
              erase (0, 3) 0 (display_write CHR ''B'' (3, 3) 0 scenario_display))"
proof -
  let ?u = "scenario_worker\<lparr>w_text := ''B'', w_y := Some 3, w_cells := [(0, 3), (1, 3), (2, 3)]\<rparr>"
  let ?r = "\<lparr>r_line = 0, r_y = 0, r_x = 0, r_wrap = 7\<rparr>"
  have m: "MAX_LEN (klass scenario_display) = 3" by (simp add: scenario_display_def)
  have st: "step_write ?r ?u scenario_display
       = Inr (scenario_worker\<lparr>w_text := [], w_y := Some 0, w_x := Some 7,
                               w_cells := [(1, 3), (2, 3), (3, 3)]\<rparr>,
              erase (0, 3) 0 (display_write CHR ''B'' (3, 3) 0 scenario_display))"
    by (simp add: step_defs scenario_worker_def scenario_display_def)
  from cell_list_bounded [of "klass scenario_display" "(5, 10)"
      "scenario_worker\<lparr>w_text := ''B'', w_y := Some 1, w_cells := [(0, 3)]\<rparr>"
      ?u "CHR ''B''" "[]" ?r scenario_display] scenario_reach m st
  show ?thesis by (simp add: scenario_worker_def)
qed

section \<open>The literal scenario\<close>

text \<open>
  Claim C7. On the 5 by 10 window with maximum length 3 and direction (0,1), a worker in
  state \<open>write\<close> at row 0, column 3 with the glyphs \<open>AB\<close> left: the first call of
  \<open>step\<close> writes \<open>A\<close> at (0,3) and moves to row 1; the second writes \<open>B\<close> at
  (1,3) and empties the queue; the third turns to \<open>erase\<close> and erases (0,3); the fourth
  erases (1,3), which empties the list, and turns to \<open>init\<close>. No random draw matters.
\<close>

theorem scenario_four_invocations:
  "(let w0 = scenario_worker;
        d0 = scenario_display;
        w1 = w0\<lparr>w_text := ''B'', w_y := Some 1, w_cells := [(0, 3)]\<rparr>;
        d1 = display_write CHR ''A'' (0, 3) 0 d0;
        w2 = w1\<lparr>w_text := [], w_y := Some 2, w_cells := [(0, 3), (1, 3)]\<rparr>;
        d2 = display_write CHR ''B'' (1, 3) 0 d1;
        w3 = w2\<lparr>w_cells := [(1, 3)], w_state := Erase\<rparr>;
        d3 = erase (0, 3) 0 d2;
        w4 = w3\<lparr>w_cells := [], w_state := Init\<rparr>;
        d4 = erase (1, 3) 0 d3
    in worker_step r1 w0 d0 = Inr (w1, d1)
       \<and> worker_step r2 w1 d1 = Inr (w2, d2)
       \<and> worker_step r3 w2 d2 = Inr (w3, d3)
       \<and> worker_step r4 w3 d3 = Inr (w4, d4)
       \<and> cells d1 (0, 3) = Some (0, CHR ''A'')
       \<and> cells d2 (1, 3) = Some (0, CHR ''B'')
       \<and> cells d3 (0, 3) = None \<and> cells d3 (1, 3) = Some (0, CHR ''B'')
       \<and> cells d4 = Map.empty)"
  unfolding Let_def
  apply (intro conjI)
          apply (simp add: step_defs scenario_worker_def scenario_display_def)
         apply (simp add: step_defs scenario_worker_def scenario_display_def)
        apply (simp add: step_defs scenario_worker_def scenario_display_def)
       apply (simp add: step_defs scenario_worker_def scenario_display_def)
      apply (simp_all add: step_defs scenario_worker_def scenario_display_def)
  done

section \<open>The wrap rule\<close>

lemma randint_onto: "a \<le> v \<Longrightarrow> v \<le> b \<Longrightarrow> randint a b (nat (v - a)) = Inr v"
  by (simp add: randint_def)

text \<open>
  Claim C6. \<open>increment_position\<close> is given the last valid column and row indices of the
  grid it moves on, so that grid has \<open>window_y_max + 1\<close> rows. Under direction (0,1), a
  worker on the last valid row moves to row 0, which is the advanced row modulo the number
  of rows, and takes a column drawn by \<open>randint(0, window_x_max)\<close>, which lies in the
  grid and can be any of its columns; on any other row only the row changes, by one, and
  the column stays. \<open>step\<close> calls it with \<open>width - 1\<close> and \<open>height - 2\<close>: a worker
  writing on row \<open>height - 2\<close> continues on row 0 at a column in \<open>[0, width - 1]\<close>.
  The distribution of the draw is that of the library and is not part of the model.
\<close>

theorem wrap_row_resample_column:
  "(w_dx w = 0 \<and> w_dy w = 1 \<and> w_x w = Some x0 \<and> w_y w = Some y0
      \<and> 0 \<le> x0 \<and> x0 \<le> window_x_max \<and> 0 \<le> y0 \<and> y0 \<le> window_y_max
    \<longrightarrow> (\<exists>xr. randint 0 window_x_max r = Inr xr \<and> 0 \<le> xr \<and> xr \<le> window_x_max
          \<and> increment_position r window_x_max window_y_max w
              = Inr (if y0 = window_y_max
                     then w\<lparr>w_x := Some xr, w_y := Some ((y0 + 1) mod (window_y_max + 1))\<rparr>
                     else w\<lparr>w_x := Some x0, w_y := Some (y0 + 1)\<rparr>)
          \<and> (y0 = window_y_max \<longrightarrow> (y0 + 1) mod (window_y_max + 1) = 0)))
   \<and> (0 \<le> col \<and> col \<le> window_x_max \<longrightarrow> (\<exists>r'. randint 0 window_x_max r' = Inr col))
   \<and> (w_state u = Write \<and> w_text u = v # rest \<and> w_dx u = 0 \<and> w_dy u = 1
       \<and> maxyx (screen d) = (height, width) \<and> w_y u = Some (height - 2) \<and> w_x u = Some x1
       \<and> 0 \<le> height - 2 \<and> 0 \<le> x1 \<and> x1 \<le> width - 1
    \<longrightarrow> (\<exists>u' d' xr. step_write q u d = Inr (u', d') \<and> w_y u' = Some 0 \<and> w_x u' = Some xr
          \<and> 0 \<le> xr \<and> xr \<le> width - 1))"
proof (intro conjI impI)
  assume h: "w_dx w = 0 \<and> w_dy w = 1 \<and> w_x w = Some x0 \<and> w_y w = Some y0
      \<and> 0 \<le> x0 \<and> x0 \<le> window_x_max \<and> 0 \<le> y0 \<and> y0 \<le> window_y_max"
  then have xm: "0 \<le> window_x_max" by linarith
  then obtain xr where xr: "randint 0 window_x_max r = Inr xr" by (auto simp: randint_def)
  from randint_range [OF xr] have rng: "0 \<le> xr" "xr \<le> window_x_max" by simp_all
  have m: "y0 = window_y_max \<longrightarrow> (y0 + 1) mod (window_y_max + 1) = 0" by simp
  have "increment_position r window_x_max window_y_max w
              = Inr (if y0 = window_y_max
                     then w\<lparr>w_x := Some xr, w_y := Some ((y0 + 1) mod (window_y_max + 1))\<rparr>
                     else w\<lparr>w_x := Some x0, w_y := Some (y0 + 1)\<rparr>)"
    using h xr by (auto simp: increment_position_def Let_def)
  with xr rng m show "\<exists>xr. randint 0 window_x_max r = Inr xr \<and> 0 \<le> xr \<and> xr \<le> window_x_max
          \<and> increment_position r window_x_max window_y_max w
              = Inr (if y0 = window_y_max
                     then w\<lparr>w_x := Some xr, w_y := Some ((y0 + 1) mod (window_y_max + 1))\<rparr>
                     else w\<lparr>w_x := Some x0, w_y := Some (y0 + 1)\<rparr>)
          \<and> (y0 = window_y_max \<longrightarrow> (y0 + 1) mod (window_y_max + 1) = 0)"
    by (intro exI [of _ xr]) simp
next
  assume "0 \<le> col \<and> col \<le> window_x_max"
  then have "randint 0 window_x_max (nat (col - 0)) = Inr col" by (intro randint_onto) simp_all
  then show "\<exists>r'. randint 0 window_x_max r' = Inr col" ..
next
  assume h: "w_state u = Write \<and> w_text u = v # rest \<and> w_dx u = 0 \<and> w_dy u = 1
       \<and> maxyx (screen d) = (height, width) \<and> w_y u = Some (height - 2) \<and> w_x u = Some x1
       \<and> 0 \<le> height - 2 \<and> 0 \<le> x1 \<and> x1 \<le> width - 1"
  then have "0 \<le> width - 1" by linarith
  then obtain xr where xr: "randint 0 (width - 1) (r_wrap q) = Inr xr" by (auto simp: randint_def)
  from randint_range [OF xr] have rng: "0 \<le> xr" "xr \<le> width - 1" by simp_all
  let ?u1 = "u\<lparr>w_text := rest, w_cells := w_cells u @ [(height - 2, x1)]\<rparr>"
  let ?u2 = "?u1\<lparr>w_x := Some xr, w_y := Some 0\<rparr>"
  let ?d1 = "display_write v (height - 2, x1) (w_id u) d"
  have inc: "increment_position (r_wrap q) (width - 1) (height - 2) ?u1 = Inr ?u2"
    using h xr by (simp add: increment_position_def Let_def)
  have st: "step_write q u d =
      (if int (length (w_cells ?u2)) > MAX_LEN (klass ?d1)
       then Inr (?u2\<lparr>w_cells := tl (w_cells ?u2)\<rparr>, erase (hd (w_cells ?u2)) (w_id ?u2) ?d1)
       else Inr (?u2, ?d1))"
    using h by (simp add: step_write_def Let_def inc del: display_write_def)
  show "\<exists>u' d' xr. step_write q u d = Inr (u', d') \<and> w_y u' = Some 0 \<and> w_x u' = Some xr
          \<and> 0 \<le> xr \<and> xr \<le> width - 1"
  proof (cases "int (length (w_cells ?u2)) > MAX_LEN (klass ?d1)")
    case True
    with st have "step_write q u d
        = Inr (?u2\<lparr>w_cells := tl (w_cells ?u2)\<rparr>, erase (hd (w_cells ?u2)) (w_id ?u2) ?d1)" by simp
    with rng show ?thesis by (intro exI [of _ "?u2\<lparr>w_cells := tl (w_cells ?u2)\<rparr>"]
        exI [of _ "erase (hd (w_cells ?u2)) (w_id ?u2) ?d1"] exI [of _ xr]) simp
  next
    case False
    with st have "step_write q u d = Inr (?u2, ?d1)" by simp
    with rng show ?thesis by (intro exI [of _ ?u2] exI [of _ ?d1] exI [of _ xr]) simp
  qed
qed

theorem wrap_row_resample_column_witness:
  "increment_position 7 9 3 (scenario_worker\<lparr>w_y := Some 3\<rparr>)
     = Inr (scenario_worker\<lparr>w_x := Some 7, w_y := Some 0\<rparr>)
   \<and> increment_position 7 9 3 (scenario_worker\<lparr>w_y := Some 2\<rparr>)
     = Inr (scenario_worker\<lparr>w_x := Some 3, w_y := Some 3\<rparr>)
   \<and> randint 0 9 7 = Inr 7
   \<and> (\<exists>r'. randint 0 9 r' = Inr 4)
   \<and> (\<exists>u' d' xr. step_write \<lparr>r_line = 0, r_y = 0, r_x = 0, r_wrap = 7\<rparr>
          (scenario_worker\<lparr>w_y := Some 3\<rparr>) scenario_display = Inr (u', d')
        \<and> w_y u' = Some 0 \<and> w_x u' = Some xr \<and> 0 \<le> xr \<and> xr \<le> 9)"
proof -
  have r: "randint 0 9 7 = Inr 7" by (simp add: randint_def)
  have a: "\<exists>xr. randint 0 9 7 = Inr xr \<and> 0 \<le> xr \<and> xr \<le> 9
          \<and> increment_position 7 9 3 (scenario_worker\<lparr>w_y := Some 3\<rparr>)
              = Inr (scenario_worker\<lparr>w_y := Some 3, w_x := Some xr, w_y := Some ((3 + 1) mod (3 + 1))\<rparr>)"
    using wrap_row_resample_column [of "scenario_worker\<lparr>w_y := Some 3\<rparr>" 3 3 9 3 7 4
        "scenario_worker\<lparr>w_y := Some 3\<rparr>" "CHR ''A''" "''B''" scenario_display 5 10 3
        "\<lparr>r_line = 0, r_y = 0, r_x = 0, r_wrap = 7\<rparr>"]
    by (simp add: scenario_worker_def)
  have b: "\<exists>xr. randint 0 9 7 = Inr xr \<and> 0 \<le> xr \<and> xr \<le> 9
          \<and> increment_position 7 9 3 (scenario_worker\<lparr>w_y := Some 2\<rparr>)
              = Inr (scenario_worker\<lparr>w_y := Some 2, w_x := Some 3, w_y := Some (2 + 1)\<rparr>)"
    using wrap_row_resample_column [of "scenario_worker\<lparr>w_y := Some 2\<rparr>" 3 2 9 3 7 4
        "scenario_worker\<lparr>w_y := Some 3\<rparr>" "CHR ''A''" "''B''" scenario_display 5 10 3
        "\<lparr>r_line = 0, r_y = 0, r_x = 0, r_wrap = 7\<rparr>"]
    by (simp add: scenario_worker_def)
  have c: "\<exists>r'. randint 0 9 r' = Inr 4"
    using wrap_row_resample_column [of "scenario_worker\<lparr>w_y := Some 3\<rparr>" 3 3 9 3 7 4
        "scenario_worker\<lparr>w_y := Some 3\<rparr>" "CHR ''A''" "''B''" scenario_display 5 10 3
        "\<lparr>r_line = 0, r_y = 0, r_x = 0, r_wrap = 7\<rparr>"]
    by simp
  have e: "\<exists>u' d' xr. step_write \<lparr>r_line = 0, r_y = 0, r_x = 0, r_wrap = 7\<rparr>
          (scenario_worker\<lparr>w_y := Some 3\<rparr>) scenario_display = Inr (u', d')
        \<and> w_y u' = Some 0 \<and> w_x u' = Some xr \<and> 0 \<le> xr \<and> xr \<le> 9"
    using wrap_row_resample_column [of "scenario_worker\<lparr>w_y := Some 3\<rparr>" 3 3 9 3 7 4
        "scenario_worker\<lparr>w_y := Some 3\<rparr>" "CHR ''A''" "''B''" scenario_display 5 10 3
        "\<lparr>r_line = 0, r_y = 0, r_x = 0, r_wrap = 7\<rparr>"]
    by (simp add: scenario_worker_def scenario_display_def)
  from a r have a': "increment_position 7 9 3 (scenario_worker\<lparr>w_y := Some 3\<rparr>)
     = Inr (scenario_worker\<lparr>w_x := Some 7, w_y := Some 0\<rparr>)" by (auto simp: scenario_worker_def)
  from b r have b': "increment_position 7 9 3 (scenario_worker\<lparr>w_y := Some 2\<rparr>)
     = Inr (scenario_worker\<lparr>w_x := Some 3, w_y := Some 3\<rparr>)" by (auto simp: scenario_worker_def)
  from a' b' r c e show ?thesis by (intro conjI)
qed

section \<open>The last row of the screen\<close>

text \<open>
  Claim C10. For every reachable state of a worker on a window of \<open>height\<close> rows and
  \<open>width\<close> columns: every cell of its list has its row in \<open>[0, height - 2]\<close> and its
  column in \<open>[0, width - 1]\<close>; so has its position whenever it is in state \<open>write\<close>;
  every cell whose occupancy entry or drawn glyph a call of \<open>step\<close> changes lies in that
  range, so the last row of the screen is never written; the spawn row is the draw
  \<open>randint(0, height - 2)\<close>; and a row that leaves the range is taken modulo
  \<open>height - 1\<close>.
\<close>

theorem last_row_never_written:
  "actor_reachable k (height, width) w \<longrightarrow>
     (\<forall>c \<in> set (w_cells w). 0 \<le> fst c \<and> fst c \<le> height - 2 \<and> 0 \<le> snd c \<and> snd c \<le> width - 1)
     \<and> (w_state w = Write \<longrightarrow>
          (\<exists>y0 x0. w_y w = Some y0 \<and> w_x w = Some x0
             \<and> 0 \<le> y0 \<and> y0 \<le> height - 2 \<and> 0 \<le> x0 \<and> x0 \<le> width - 1))
     \<and> (\<forall>r d w' d'. klass d = k \<and> maxyx (screen d) = (height, width)
            \<and> worker_step r w d = Inr (w', d')
          \<longrightarrow> (\<forall>c. cells d' c \<noteq> cells d c \<or> drawn (screen d') c \<noteq> drawn (screen d) c
                 \<longrightarrow> 0 \<le> fst c \<and> fst c \<le> height - 2 \<and> 0 \<le> snd c \<and> snd c \<le> width - 1))
     \<and> (\<forall>r d w1. maxyx (screen d) = (height, width) \<and> w_state w = Init \<and> step_init r w d = Inr w1
          \<longrightarrow> (\<exists>yr. randint 0 (height - 2) (r_y r) = Inr yr \<and> w_y w1 = Some yr
                    \<and> 0 \<le> yr \<and> yr \<le> height - 2))
     \<and> (\<forall>r d w' d' y0. maxyx (screen d) = (height, width) \<and> w_state w = Write \<and> w_text w \<noteq> []
            \<and> w_y w = Some y0 \<and> \<not> (0 \<le> y0 + w_dy w \<and> y0 + w_dy w \<le> height - 2)
            \<and> step_write r w d = Inr (w', d')
          \<longrightarrow> w_y w' = Some ((y0 + w_dy w) mod (height - 1)))"
proof (intro impI)
  assume reach: "actor_reachable k (height, width) w"
  from actor_reachable_win [OF reach] have inv: "win_inv (height, width) w" .
  have a: "\<forall>c \<in> set (w_cells w). 0 \<le> fst c \<and> fst c \<le> height - 2 \<and> 0 \<le> snd c \<and> snd c \<le> width - 1"
    using inv by (simp add: win_inv_def in_window_def)
  have b: "w_state w = Write \<longrightarrow>
          (\<exists>y0 x0. w_y w = Some y0 \<and> w_x w = Some x0
             \<and> 0 \<le> y0 \<and> y0 \<le> height - 2 \<and> 0 \<le> x0 \<and> x0 \<le> width - 1)"
    using inv by (simp add: win_inv_def in_window_def)
  have c: "\<forall>r d w' d'. klass d = k \<and> maxyx (screen d) = (height, width)
            \<and> worker_step r w d = Inr (w', d')
          \<longrightarrow> (\<forall>c. cells d' c \<noteq> cells d c \<or> drawn (screen d') c \<noteq> drawn (screen d) c
                 \<longrightarrow> 0 \<le> fst c \<and> fst c \<le> height - 2 \<and> 0 \<le> snd c \<and> snd c \<le> width - 1)"
  proof (intro allI impI)
    fix r d w' d' c
    assume h: "klass d = k \<and> maxyx (screen d) = (height, width) \<and> worker_step r w d = Inr (w', d')"
      and ch: "cells d' c \<noteq> cells d c \<or> drawn (screen d') c \<noteq> drawn (screen d) c"
    from h have "touches_window (height, width) d d'" using worker_step_win [OF inv] by blast
    with ch have "in_window (height, width) c" unfolding touches_window_def by blast
    then show "0 \<le> fst c \<and> fst c \<le> height - 2 \<and> 0 \<le> snd c \<and> snd c \<le> width - 1"
      by (simp add: in_window_def)
  qed
  have e: "\<forall>r d w1. maxyx (screen d) = (height, width) \<and> w_state w = Init \<and> step_init r w d = Inr w1
          \<longrightarrow> (\<exists>yr. randint 0 (height - 2) (r_y r) = Inr yr \<and> w_y w1 = Some yr
                    \<and> 0 \<le> yr \<and> yr \<le> height - 2)"
  proof (intro allI impI)
    fix r d w1
    assume h: "maxyx (screen d) = (height, width) \<and> w_state w = Init \<and> step_init r w d = Inr w1"
    then have i: "w_state w = Init" and s: "step_init r w d = Inr w1" by simp_all
    from step_init_spawn [OF i s] h obtain yr where
      yr: "randint 0 (height - 2) (r_y r) = Inr yr" and "w_y w1 = Some yr" by auto
    with randint_range [OF yr] show "\<exists>yr. randint 0 (height - 2) (r_y r) = Inr yr \<and> w_y w1 = Some yr
                    \<and> 0 \<le> yr \<and> yr \<le> height - 2" by simp
  qed
  have f: "\<forall>r d w' d' y0. maxyx (screen d) = (height, width) \<and> w_state w = Write \<and> w_text w \<noteq> []
            \<and> w_y w = Some y0 \<and> \<not> (0 \<le> y0 + w_dy w \<and> y0 + w_dy w \<le> height - 2)
            \<and> step_write r w d = Inr (w', d')
          \<longrightarrow> w_y w' = Some ((y0 + w_dy w) mod (height - 1))"
  proof (intro allI impI)
    fix r d w' d' y0
    assume h: "maxyx (screen d) = (height, width) \<and> w_state w = Write \<and> w_text w \<noteq> []
            \<and> w_y w = Some y0 \<and> \<not> (0 \<le> y0 + w_dy w \<and> y0 + w_dy w \<le> height - 2)
            \<and> step_write r w d = Inr (w', d')"
    then obtain v rest where tx: "w_text w = v # rest" by (cases "w_text w") auto
    from h have wr: "w_state w = Write" and st: "step_write r w d = Inr (w', d')" by simp_all
    from step_write_glyph [OF wr tx st] h obtain x0 w2 where
      inc: "increment_position (r_wrap r) (width - 1) (height - 2)
          (w\<lparr>w_text := rest, w_cells := w_cells w @ [(y0, x0)]\<rparr>) = Inr w2"
      and res: "w_y w' = w_y w2"
      by (auto split: if_splits)
    from inc h have "w_y w2 = Some ((y0 + w_dy w) mod (height - 1))"
      by (cases rule: increment_position_cases) auto
    with res show "w_y w' = Some ((y0 + w_dy w) mod (height - 1))" by simp
  qed
  from a b c e f show "(\<forall>c \<in> set (w_cells w). 0 \<le> fst c \<and> fst c \<le> height - 2 \<and> 0 \<le> snd c \<and> snd c \<le> width - 1)
     \<and> (w_state w = Write \<longrightarrow>
          (\<exists>y0 x0. w_y w = Some y0 \<and> w_x w = Some x0
             \<and> 0 \<le> y0 \<and> y0 \<le> height - 2 \<and> 0 \<le> x0 \<and> x0 \<le> width - 1))
     \<and> (\<forall>r d w' d'. klass d = k \<and> maxyx (screen d) = (height, width)
            \<and> worker_step r w d = Inr (w', d')
          \<longrightarrow> (\<forall>c. cells d' c \<noteq> cells d c \<or> drawn (screen d') c \<noteq> drawn (screen d) c
                 \<longrightarrow> 0 \<le> fst c \<and> fst c \<le> height - 2 \<and> 0 \<le> snd c \<and> snd c \<le> width - 1))
     \<and> (\<forall>r d w1. maxyx (screen d) = (height, width) \<and> w_state w = Init \<and> step_init r w d = Inr w1
          \<longrightarrow> (\<exists>yr. randint 0 (height - 2) (r_y r) = Inr yr \<and> w_y w1 = Some yr
                    \<and> 0 \<le> yr \<and> yr \<le> height - 2))
     \<and> (\<forall>r d w' d' y0. maxyx (screen d) = (height, width) \<and> w_state w = Write \<and> w_text w \<noteq> []
            \<and> w_y w = Some y0 \<and> \<not> (0 \<le> y0 + w_dy w \<and> y0 + w_dy w \<le> height - 2)
            \<and> step_write r w d = Inr (w', d')
          \<longrightarrow> w_y w' = Some ((y0 + w_dy w) mod (height - 1)))"
    by (intro conjI)
qed


lemma scenario_spawn_row2:
  "worker_step \<lparr>r_line = 0, r_y = 2, r_x = 3, r_wrap = 0\<rparr> (new_worker 0 (0, 1)) scenario_display
   = Inr (scenario_worker\<lparr>w_text := ''B'', w_y := Some 3, w_cells := [(2, 3)]\<rparr>,
          display_write CHR ''A'' (2, 3) 0 scenario_display)"
  by (simp add: step_defs scenario_worker_def scenario_display_def new_worker_def)

lemma scenario_reach_row3:
  "actor_reachable (klass scenario_display) (5, 10)
     (scenario_worker\<lparr>w_text := ''B'', w_y := Some 3, w_cells := [(2, 3)]\<rparr>)"
proof -
  have "actor_reachable (klass scenario_display) (5, 10) (new_worker 0 (DIRECTION (klass scenario_display)))"
    by (rule actor_reachable.created)
  moreover have "DIRECTION (klass scenario_display) = (0, 1)" "maxyx (screen scenario_display) = (5, 10)"
    by (simp_all add: scenario_display_def)
  ultimately show ?thesis using scenario_spawn_row2 actor_reachable.stepped [of "klass scenario_display" "(5, 10)"
      "new_worker 0 (0, 1)" scenario_display] by simp
qed

theorem last_row_never_written_witness:
  "actor_reachable (klass scenario_display) (5, 10)
     (scenario_worker\<lparr>w_text := ''B'', w_y := Some 3, w_cells := [(2, 3)]\<rparr>)
   \<and> step_write \<lparr>r_line = 0, r_y = 0, r_x = 0, r_wrap = 7\<rparr>
        (scenario_worker\<lparr>w_text := ''B'', w_y := Some 3, w_cells := [(2, 3)]\<rparr>)
        (display_write CHR ''A'' (2, 3) 0 scenario_display)
       = Inr (scenario_worker\<lparr>w_text := [], w_y := Some 0, w_x := Some 7, w_cells := [(2, 3), (3, 3)]\<rparr>,
              display_write CHR ''B'' (3, 3) 0 (display_write CHR ''A'' (2, 3) 0 scenario_display))
   \<and> (3 + 1) mod (5 - 1) = (0::int)
   \<and> cells (display_write CHR ''B'' (3, 3) 0 (display_write CHR ''A'' (2, 3) 0 scenario_display)) (3, 3)
       \<noteq> cells (display_write CHR ''A'' (2, 3) 0 scenario_display) (3, 3)
   \<and> (0::int) \<le> fst (3::int, 3::int) \<and> fst (3::int, 3::int) \<le> (5::int) - 2
   \<and> step_init \<lparr>r_line = 0, r_y = 2, r_x = 3, r_wrap = 0\<rparr> (new_worker 0 (0, 1)) scenario_display
       = Inr (scenario_worker\<lparr>w_y := Some 2\<rparr>)
   \<and> randint 0 (5 - 2) 2 = Inr 2"
proof -
  let ?k = "klass scenario_display"
  let ?w = "scenario_worker\<lparr>w_text := ''B'', w_y := Some 3, w_cells := [(2, 3)]\<rparr>"
  let ?d1 = "display_write CHR ''A'' (2, 3) 0 scenario_display"
  let ?d2 = "display_write CHR ''B'' (3, 3) 0 ?d1"
  let ?w2 = "scenario_worker\<lparr>w_text := [], w_y := Some 0, w_x := Some 7, w_cells := [(2, 3), (3, 3)]\<rparr>"
  let ?r = "\<lparr>r_line = 0, r_y = 0, r_x = 0, r_wrap = 7\<rparr>"
  let ?q = "\<lparr>r_line = 0, r_y = 2, r_x = 3, r_wrap = 0\<rparr>"
  have k: "klass ?d1 = ?k" and yx: "maxyx (screen ?d1) = (5, 10)"
    by (simp_all add: display_write_def addstr_def scenario_display_def)
  have yx0: "maxyx (screen scenario_display) = (5, 10)" by (simp add: scenario_display_def)
  have sw: "step_write ?r ?w ?d1 = Inr (?w2, ?d2)"
    by (simp add: step_defs scenario_worker_def scenario_display_def)
  have ws: "worker_step ?r ?w ?d1 = Inr (?w2, ?d2)"
    by (simp add: step_defs scenario_worker_def scenario_display_def)
  have si: "step_init ?q (new_worker 0 (0, 1)) scenario_display = Inr (scenario_worker\<lparr>w_y := Some 2\<rparr>)"
    by (simp add: step_defs scenario_worker_def scenario_display_def new_worker_def)
  have ch: "cells ?d2 (3, 3) \<noteq> cells ?d1 (3, 3)"
    by (simp add: display_write_def scenario_display_def)
  note T = last_row_never_written [of ?k 5 10 ?w, THEN mp, OF scenario_reach_row3]
  note T3 = T [THEN conjunct2, THEN conjunct2, THEN conjunct1, rule_format]
  note T5 = T [THEN conjunct2, THEN conjunct2, THEN conjunct2, THEN conjunct2, rule_format]
  have wr: "w_state ?w = Write" "w_text ?w \<noteq> []" "w_y ?w = Some 3" "w_dy ?w = 1"
    by (simp_all add: scenario_worker_def)
  from T3 [of ?d1 ?r ?w2 ?d2 "(3, 3)"] k yx ws ch
  have win: "(0::int) \<le> fst (3::int, 3::int) \<and> fst (3::int, 3::int) \<le> (5::int) - 2" by simp
  from T5 [of ?d1 3 ?r ?w2 ?d2] yx wr sw
  have "w_y ?w2 = Some ((3 + 1) mod (5 - 1))" by simp
  then have m: "(3 + 1) mod (5 - 1) = (0::int)" by simp
  have "actor_reachable ?k (5, 10) (new_worker 0 (DIRECTION ?k))" by (rule actor_reachable.created)
  then have r0: "actor_reachable ?k (5, 10) (new_worker 0 (0, 1))" by (simp add: scenario_display_def)
  note U = last_row_never_written [of ?k 5 10 "new_worker 0 (0, 1)", THEN mp, OF r0]
  note U4 = U [THEN conjunct2, THEN conjunct2, THEN conjunct2, THEN conjunct1, rule_format]
  from U4 [of scenario_display ?q "scenario_worker\<lparr>w_y := Some 2\<rparr>"] yx0 si
  have "\<exists>yr. randint 0 (5 - 2) (r_y ?q) = Inr yr \<and> w_y (scenario_worker\<lparr>w_y := Some 2\<rparr>) = Some yr
                    \<and> 0 \<le> yr \<and> yr \<le> 5 - 2"
    by (simp add: new_worker_def)
  then have ri: "randint 0 (5 - 2) 2 = Inr 2" by auto
  from scenario_reach_row3 sw m ch win si ri show ?thesis by (intro conjI) simp_all
qed

section \<open>The glyph queue\<close>

lemma glyph_printable: "glyph ch = (printable_ascii ch \<and> ch \<noteq> CHR '' '')"
proof -
  have "(of_char ch = (32::nat)) = (ch = CHR '' '')"
    using of_char_eq_iff [of ch "CHR '' ''", where ?'a = nat] by simp
  then show ?thesis unfolding glyph_def printable_ascii_def by linarith
qed

lemma step_init_ok:
  assumes "w_state w = Init" "lines d \<noteq> []" "2 \<le> fst (maxyx (screen d))" "1 \<le> snd (maxyx (screen d))"
  shows "\<exists>w1. step_init r w d = Inr w1"
  using assms by (cases "maxyx (screen d)") (simp add: step_init_def choice_def randint_def)

lemma empty_queue_step:
  assumes "w_state w1 = Write" "w_text w1 = []" "w_cells w1 = []"
  shows "step_write r w1 d = Inr (w1\<lparr>w_state := Erase\<rparr>, d)"
    and "step_erase (w1\<lparr>w_state := Erase\<rparr>) d = (w1\<lparr>w_state := Init\<rparr>, d)"
    and "step_exit (w1\<lparr>w_state := Init\<rparr>) d = (w1\<lparr>w_state := Init\<rparr>, d)"
  using assms by (simp_all add: step_write_def step_erase_def step_exit_def)

text \<open>
  Claim C8, as the specification words it, with the printable ASCII characters being the
  codes 32 to 126: the queue would keep the spaces of the chosen line. The program keeps
  the characters with \<open>32 < ord(char) < 127\<close>, so the line \<open>a b\<close> gives the queue
  \<open>ab\<close>.
\<close>

theorem glyph_queue_drops_spaces:
  "step_init \<lparr>r_line = 0, r_y = 0, r_x = 3, r_wrap = 0\<rparr> (new_worker 0 (0, 1))
       (scenario_display\<lparr>lines := [''a b'']\<rparr>)
     = Inr (scenario_worker\<lparr>w_text := ''ab''\<rparr>)
   \<and> filter printable_ascii ''a b'' = ''a b''
   \<and> w_text (scenario_worker\<lparr>w_text := ''ab''\<rparr>) \<noteq> filter printable_ascii ''a b''"
  by (simp add: step_init_def choice_def randint_def glyph_def printable_ascii_def
      scenario_display_def scenario_worker_def new_worker_def)

text \<open>
  Claim C8, amended. The \<open>init\<close> block fails only on an empty corpus or a window too
  small to spawn in; otherwise the queue is the chosen line filtered, in order, to the
  printable ASCII characters other than the space (codes 33 to 126), the list is empty and
  the state is \<open>write\<close>. A line with no printable ASCII character gives the empty queue,
  and with an empty queue the \<open>write\<close> block turns to \<open>erase\<close> with the display
  untouched, and the whole call of \<open>step\<close> returns without an error, no cell written,
  the worker back in \<open>init\<close>.
\<close>

theorem glyph_queue_is_filtered_line:
  "(w_state w = Init \<and> step_init r w d = Inr w1
      \<longrightarrow> lines d \<noteq> []
          \<and> w_text w1 = filter glyph (lines d ! (r_line r mod length (lines d)))
          \<and> w_cells w1 = [] \<and> w_state w1 = Write
          \<and> (w_text w1 = [] \<longrightarrow>
                step_write r w1 d = Inr (w1\<lparr>w_state := Erase\<rparr>, d)
                \<and> worker_step r w d = Inr (w1\<lparr>w_state := Init\<rparr>, d)))
   \<and> glyph ch = (printable_ascii ch \<and> ch \<noteq> CHR '' '')
   \<and> (filter printable_ascii s = [] \<longrightarrow> filter glyph s = [])
   \<and> (w_state w = Init \<and> lines d \<noteq> [] \<and> 2 \<le> fst (maxyx (screen d)) \<and> 1 \<le> snd (maxyx (screen d))
      \<longrightarrow> (\<exists>w1. step_init r w d = Inr w1))"
proof (intro conjI impI)
  assume h: "w_state w = Init \<and> step_init r w d = Inr w1"
  then have i: "w_state w = Init" and s: "step_init r w d = Inr w1" by simp_all
  from step_init_spawn [OF i s] obtain ln yr xr where
    c: "choice (lines d) (r_line r) = Inr ln"
    and w1: "w1 = w\<lparr>w_text := filter glyph ln, w_y := Some yr, w_x := Some xr,
                     w_cells := [], w_state := Write\<rparr>" by blast
  from c show ne: "lines d \<noteq> []" by (auto simp: choice_def split: if_splits)
  from c ne have "ln = lines d ! (r_line r mod length (lines d))" by (simp add: choice_def)
  with w1 show "w_text w1 = filter glyph (lines d ! (r_line r mod length (lines d)))" by simp
  from w1 show c1: "w_cells w1 = []" and s1: "w_state w1 = Write" by simp_all
  assume e: "w_text w1 = []"
  note E = empty_queue_step [OF s1 e c1]
  show "step_write r w1 d = Inr (w1\<lparr>w_state := Erase\<rparr>, d)" by (rule E(1))
  show "worker_step r w d = Inr (w1\<lparr>w_state := Init\<rparr>, d)"
    by (simp add: worker_step_def s E)
next
  show "glyph ch = (printable_ascii ch \<and> ch \<noteq> CHR '' '')" by (rule glyph_printable)
next
  assume "filter printable_ascii s = []"
  then show "filter glyph s = []" by (auto simp: filter_empty_conv glyph_printable)
next
  assume "w_state w = Init \<and> lines d \<noteq> [] \<and> 2 \<le> fst (maxyx (screen d)) \<and> 1 \<le> snd (maxyx (screen d))"
  then show "\<exists>w1. step_init r w d = Inr w1" using step_init_ok by blast
qed

theorem glyph_queue_is_filtered_line_witness:
  "step_init \<lparr>r_line = 0, r_y = 0, r_x = 3, r_wrap = 0\<rparr> (new_worker 0 (0, 1))
       (scenario_display\<lparr>lines := [''a b'']\<rparr>)
     = Inr (scenario_worker\<lparr>w_text := ''ab''\<rparr>)
   \<and> filter glyph ([''a b''] ! (0 mod length [''a b''])) = ''ab''
   \<and> step_init \<lparr>r_line = 0, r_y = 0, r_x = 3, r_wrap = 0\<rparr> (new_worker 0 (0, 1))
       (scenario_display\<lparr>lines := [[CHR 0x07, CHR '' '']]\<rparr>)
     = Inr (scenario_worker\<lparr>w_text := []\<rparr>)
   \<and> worker_step \<lparr>r_line = 0, r_y = 0, r_x = 3, r_wrap = 0\<rparr> (new_worker 0 (0, 1))
       (scenario_display\<lparr>lines := [[CHR 0x07, CHR '' '']]\<rparr>)
     = Inr (scenario_worker\<lparr>w_text := [], w_state := Init\<rparr>,
            scenario_display\<lparr>lines := [[CHR 0x07, CHR '' '']]\<rparr>)
   \<and> glyph CHR ''a'' \<and> \<not> glyph CHR '' '' \<and> printable_ascii CHR '' ''
   \<and> filter printable_ascii [CHR 0x07] = [] \<and> filter glyph [CHR 0x07] = []"
proof -
  let ?q = "\<lparr>r_line = 0, r_y = 0, r_x = 3, r_wrap = 0\<rparr>"
  let ?w = "new_worker 0 (0, 1)"
  let ?da = "scenario_display\<lparr>lines := [''a b'']\<rparr>"
  let ?db = "scenario_display\<lparr>lines := [[CHR 0x07, CHR '' '']]\<rparr>"
  have i: "w_state ?w = Init" by (simp add: new_worker_def)
  have oka: "lines ?da \<noteq> [] \<and> 2 \<le> fst (maxyx (screen ?da)) \<and> 1 \<le> snd (maxyx (screen ?da))"
    by (simp add: scenario_display_def)
  from glyph_queue_is_filtered_line [of ?w ?q ?da _ "CHR ''a''" "[CHR 0x07]"] i oka
  obtain wa where wa: "step_init ?q ?w ?da = Inr wa" by blast
  have sa: "step_init ?q ?w ?da = Inr (scenario_worker\<lparr>w_text := ''ab''\<rparr>)"
    by (simp add: step_init_def choice_def randint_def glyph_def
        scenario_display_def scenario_worker_def new_worker_def)
  from glyph_queue_is_filtered_line [of ?w ?q ?da "scenario_worker\<lparr>w_text := ''ab''\<rparr>" "CHR ''a''" "[CHR 0x07]"]
    i sa
  have fa: "filter glyph ([''a b''] ! (0 mod length [''a b''])) = ''ab''"
    and g: "glyph CHR ''a'' = (printable_ascii CHR ''a'' \<and> CHR ''a'' \<noteq> CHR '' '')"
    and fe: "filter printable_ascii [CHR 0x07] = [] \<longrightarrow> filter glyph [CHR 0x07] = []"
    by simp_all
  have sb: "step_init ?q ?w ?db = Inr (scenario_worker\<lparr>w_text := []\<rparr>)"
    by (simp add: step_init_def choice_def randint_def glyph_def
        scenario_display_def scenario_worker_def new_worker_def)
  from glyph_queue_is_filtered_line [of ?w ?q ?db "scenario_worker\<lparr>w_text := []\<rparr>" "CHR '' ''" "[CHR 0x07]"]
    i sb
  have wb: "worker_step ?q ?w ?db
     = Inr (scenario_worker\<lparr>w_text := [], w_state := Init\<rparr>, ?db)"
    and gs: "glyph CHR '' '' = (printable_ascii CHR '' '' \<and> CHR '' '' \<noteq> CHR '' '')"
    by simp_all
  have p: "printable_ascii CHR ''a''" "printable_ascii CHR '' ''" "filter printable_ascii [CHR 0x07] = []"
    by (simp_all add: printable_ascii_def)
  from sa fa sb wb g gs fe p show ?thesis by simp
qed

section \<open>Shutdown\<close>
































subsection \<open>The invariant of the polling loop\<close>






















lemmas sched_defs = display_step_def refresh_def blank_removals_def settle_additions_def
  broadcast_exit_def drained_def


lemma stale_drain:
  "case polls stale_ticks stale_start of Inl err \<Rightarrow> False | Inr d \<Rightarrow>
     (case display_step full_tick (broadcast_exit d) of Inl err \<Rightarrow> False
        | Inr d' \<Rightarrow> cells d' (0, 1) = Some (0, CHR ''E''))
     \<and> drain [full_tick] (broadcast_exit d) = None
     \<and> drain [full_tick, full_tick] (broadcast_exit d) = None
     \<and> drain [idle_tick, idle_tick, idle_tick] (broadcast_exit d) = None"
  by (auto simp: stale_ticks_def stale_start_def write_tick_def full_tick_def idle_tick_def
      sched_defs step_defs new_worker_def fun_eq_iff)





section \<open>The empty corpus\<close>






end
